theory Spec2Isabelle
  imports Complex_Main
begin

unbundle bit_operations_syntax

section \<open>Data model\<close>

text \<open>
  The program is the notebook \<^verbatim>\<open>DCpro3.ipynb\<close>. A Python \<^verbatim>\<open>str\<close> is a sequence of
  Unicode code points, so a text is a list of natural numbers (\<^verbatim>\<open>ord\<close> of each
  character); a Python character is not a byte. A bit array is a numpy integer
  array: a list of integers. The operations applied to its elements (\<^verbatim>\<open>^\<close>,
  \<^verbatim>\<open>& 1\<close>, sums of three masked bits) cannot leave the 64-bit range, so
  unbounded integers compute the same values. The exceptions the code can raise
  are values of \<open>py_error\<close>.
\<close>

type_synonym pystr = "nat list"

datatype py_error = KeyError | ValueError | OverflowError

definition is_bits :: "int list \<Rightarrow> bool" where
  "is_bits bits = list_all (\<lambda>b. b = 0 \<or> b = 1) bits"

section \<open>Text and bits\<close>

text \<open>
  \<^verbatim>\<open>format(n, '08b')\<close> writes \<open>n\<close> in binary, most significant digit first, and
  pads it with zeros on the left up to a width of 8: 8 is a minimum width, and a
  number above 255 keeps all its digits. \<open>bin_digits\<close> is the digit sequence
  read back through \<^verbatim>\<open>int(b)\<close>.
\<close>

function bin_digits :: "nat \<Rightarrow> int list" where
  "bin_digits n = (if n < 2 then [int n] else bin_digits (n div 2) @ [int (n mod 2)])"
  by pat_completeness auto
termination
  by (relation "measure (\<lambda>n. n)") auto

declare bin_digits.simps [simp del]

definition format_08b :: "nat \<Rightarrow> int list" where
  "format_08b n = replicate (8 - length (bin_digits n)) 0 @ bin_digits n"

definition text_to_bits :: "pystr \<Rightarrow> int list" where
  "text_to_bits text = concat (map format_08b text)"

text \<open>
  \<^verbatim>\<open>str(int(b))\<close> is the decimal numeral of \<open>b\<close>, with a minus sign when negative.
\<close>

definition digit_char :: "nat \<Rightarrow> char" where
  "digit_char d = ''0123456789'' ! d"

function str_nat :: "nat \<Rightarrow> string" where
  "str_nat n = (if n < 10 then [digit_char n] else str_nat (n div 10) @ [digit_char (n mod 10)])"
  by pat_completeness auto
termination
  by (relation "measure (\<lambda>n. n)") auto

declare str_nat.simps [simp del]

definition str_int :: "int \<Rightarrow> string" where
  "str_int i = (if i < 0 then CHR ''-'' # str_nat (nat (- i)) else str_nat (nat i))"

text \<open>
  \<^verbatim>\<open>int(s, 2)\<close> on a string made of decimal digits and minus signs (all that
  \<^verbatim>\<open>str(int(b))\<close> produces): an optional leading sign, then one or more binary
  digits; anything else raises \<^verbatim>\<open>ValueError\<close>.
\<close>

definition is_bin_digit :: "char \<Rightarrow> bool" where
  "is_bin_digit c = (c = CHR ''0'' \<or> c = CHR ''1'')"

definition bin_str_value :: "string \<Rightarrow> int" where
  "bin_str_value s = foldl (\<lambda>acc c. 2 * acc + (if c = CHR ''1'' then 1 else 0)) 0 s"

definition int_base2 :: "string \<Rightarrow> py_error + int" where
  "int_base2 s =
     (if s \<noteq> [] \<and> hd s = CHR ''-'' then
        (if tl s \<noteq> [] \<and> list_all is_bin_digit (tl s) then Inr (- bin_str_value (tl s))
         else Inl ValueError)
      else
        (if s \<noteq> [] \<and> list_all is_bin_digit s then Inr (bin_str_value s)
         else Inl ValueError))"

text \<open>
  \<^verbatim>\<open>chr(v)\<close>: the character of code point \<open>v\<close>; \<^verbatim>\<open>ValueError\<close> outside
  \<^verbatim>\<open>range(0x110000)\<close>, \<^verbatim>\<open>OverflowError\<close> when \<open>v\<close> does not fit a C int.
\<close>

definition py_chr :: "int \<Rightarrow> py_error + nat" where
  "py_chr v =
     (if v < - (2 ^ 31) \<or> 2 ^ 31 \<le> v then Inl OverflowError
      else if v < 0 \<or> 1114112 \<le> v then Inl ValueError
      else Inr (nat v))"

definition byte_char :: "int list \<Rightarrow> py_error + nat" where
  "byte_char byte =
     (case int_base2 (concat (map str_int byte)) of
        Inl e \<Rightarrow> Inl e
      | Inr v \<Rightarrow> py_chr v)"

text \<open>\<^verbatim>\<open>[bits[i:i + 8] for i in range(0, len(bits), 8)]\<close>\<close>

function chunks8 :: "int list \<Rightarrow> int list list" where
  "chunks8 bits = (if bits = [] then [] else take 8 bits # chunks8 (drop 8 bits))"
  by pat_completeness auto
termination
  by (relation "measure length") auto

declare chunks8.simps [simp del]

text \<open>A list comprehension stops at the first element that raises.\<close>

fun chars_of :: "int list list \<Rightarrow> py_error + pystr" where
  "chars_of [] = Inr []"
| "chars_of (byte # rest) =
     (case byte_char byte of
        Inl e \<Rightarrow> Inl e
      | Inr c \<Rightarrow> (case chars_of rest of Inl e \<Rightarrow> Inl e | Inr cs \<Rightarrow> Inr (c # cs)))"

definition bits_to_text :: "int list \<Rightarrow> py_error + pystr" where
  "bits_to_text bits =
     (let bits = take (length bits - length bits mod 8) bits
      in chars_of (chunks8 bits))"

section \<open>Hamming(7,4)\<close>

text \<open>
  \<^verbatim>\<open>hamming_encode\<close>: one pass of the loop takes \<^verbatim>\<open>data_bits[i:i + 4]\<close>, appends
  zeros while it is shorter than 4, and appends the 7-bit block to the output.
\<close>

function hamming_encode :: "int list \<Rightarrow> int list" where
  "hamming_encode data_bits =
     (if data_bits = [] then []
      else
        (let d = take 4 data_bits;
             d = d @ replicate (4 - length d) 0;
             d1 = d ! 0; d2 = d ! 1; d3 = d ! 2; d4 = d ! 3;
             p1 = (d1 XOR d2 XOR d4) AND 1;
             p2 = (d1 XOR d3 XOR d4) AND 1;
             p3 = (d2 XOR d3 XOR d4) AND 1
         in [p1, p2, d1, p3, d2, d3, d4] @ hamming_encode (drop 4 data_bits)))"
  by pat_completeness auto
termination
  by (relation "measure length") auto

declare hamming_encode.simps [simp del]

text \<open>
  \<^verbatim>\<open>hamming_decode\<close>. The argument is a numpy array and \<^verbatim>\<open>encoded_bits[i:i + 7]\<close>
  is a view of it, so \<^verbatim>\<open>block[error_pos - 1] ^= 1\<close> writes into the caller's
  array at index \<^verbatim>\<open>i + error_pos - 1\<close>. The loop therefore carries the array as
  state and returns it next to the decoded bits.
\<close>

definition error_pos :: "int list \<Rightarrow> int" where
  "error_pos block =
     (let p1 = block ! 0; p2 = block ! 1; d1 = block ! 2; p3 = block ! 3;
          d2 = block ! 4; d3 = block ! 5; d4 = block ! 6;
          s1 = (p1 XOR d1 XOR d2 XOR d4) AND 1;
          s2 = (p2 XOR d1 XOR d3 XOR d4) AND 1;
          s3 = (p3 XOR d2 XOR d3 XOR d4) AND 1
      in s1 + (s2 * 2) + (s3 * 4))"

definition flip_at :: "nat \<Rightarrow> int list \<Rightarrow> int list" where
  "flip_at j arr = arr[j := (arr ! j) XOR 1]"

function hamming_decode_loop :: "nat \<Rightarrow> int list \<Rightarrow> int list \<Rightarrow> int list \<times> int list" where
  "hamming_decode_loop i encoded_bits decoded =
     (if i < length encoded_bits then
        (if length (take 7 (drop i encoded_bits)) < 7 then
           hamming_decode_loop (i + 7) encoded_bits decoded
         else
           (let pos = error_pos (take 7 (drop i encoded_bits));
                arr = (if pos \<noteq> 0 \<and> pos \<le> 7 then flip_at (i + nat (pos - 1)) encoded_bits
                       else encoded_bits)
            in hamming_decode_loop (i + 7) arr
                 (decoded @ [arr ! (i + 2), arr ! (i + 4), arr ! (i + 5), arr ! (i + 6)])))
      else (decoded, encoded_bits))"
  by pat_completeness auto
termination
  by (relation "measure (\<lambda>(i, arr, decoded). length arr - i)") (auto simp: flip_at_def)

declare hamming_decode_loop.simps [simp del]

definition hamming_decode_st :: "int list \<Rightarrow> int list \<times> int list" where
  "hamming_decode_st encoded_bits = hamming_decode_loop 0 encoded_bits []"

definition hamming_decode :: "int list \<Rightarrow> int list" where
  "hamming_decode encoded_bits = fst (hamming_decode_st encoded_bits)"

text \<open>
  For the proofs, the effect of the loop on one block and on a whole array:
  \<open>fix_block\<close> is the block after the in-place correction, \<open>data_of\<close> reads the
  four data positions, \<open>fix_blocks\<close> and \<open>dec_blocks\<close> run them over the full
  blocks of an array, leaving a short tail as it is.
\<close>

definition fix_block :: "int list \<Rightarrow> int list" where
  "fix_block block =
     (let pos = error_pos block
      in if pos \<noteq> 0 \<and> pos \<le> 7 then flip_at (nat (pos - 1)) block else block)"

definition data_of :: "int list \<Rightarrow> int list" where
  "data_of block = [block ! 2, block ! 4, block ! 5, block ! 6]"

function fix_blocks :: "int list \<Rightarrow> int list" where
  "fix_blocks xs = (if length xs < 7 then xs else fix_block (take 7 xs) @ fix_blocks (drop 7 xs))"
  by pat_completeness auto
termination by (relation "measure length") auto

function dec_blocks :: "int list \<Rightarrow> int list" where
  "dec_blocks xs = (if length xs < 7 then [] else data_of (fix_block (take 7 xs)) @ dec_blocks (drop 7 xs))"
  by pat_completeness auto
termination by (relation "measure length") auto

declare fix_blocks.simps [simp del] dec_blocks.simps [simp del]

text \<open>
  For the proofs: the number that a sequence of binary digits denotes, most
  significant digit first, and the string of digit characters of a bit sequence.
\<close>

definition bin_value :: "int list \<Rightarrow> int" where
  "bin_value ds = foldl (\<lambda>acc d. 2 * acc + d) 0 ds"

definition bit_chars :: "int list \<Rightarrow> string" where
  "bit_chars ds = map (\<lambda>d. if d = 1 then CHR ''1'' else CHR ''0'') ds"

text \<open>An array is clean when every full block of it has error position 0.\<close>

abbreviation clean :: "int list \<Rightarrow> bool" where
  "clean xs \<equiv> (\<forall>k. 7 * k + 7 \<le> length xs \<longrightarrow> error_pos (take 7 (drop (7 * k) xs)) = 0)"

text \<open>
  The encoder as the specification words it, to be compared with
  \<open>hamming_encode\<close>: the input is cut into groups of 4 bits, the last group filled
  with zeros, and each group \<open>(d1, d2, d3, d4)\<close> gives the block
  \<open>[p1, p2, d1, p3, d2, d3, d4]\<close> with \<open>p1 = d1 xor d2 xor d4\<close>,
  \<open>p2 = d1 xor d3 xor d4\<close>, \<open>p3 = d2 xor d3 xor d4\<close>. Exclusive or of two bits is
  their sum modulo 2.
\<close>

definition bit_xor :: "int \<Rightarrow> int \<Rightarrow> int" where
  "bit_xor a b = (a + b) mod 2"

fun spec_groups :: "int list \<Rightarrow> int list list" where
  "spec_groups (a # b # c # d # rest) = [a, b, c, d] # spec_groups rest"
| "spec_groups [] = []"
| "spec_groups short = [short @ replicate (4 - length short) 0]"

fun spec_block :: "int list \<Rightarrow> int list" where
  "spec_block [d1, d2, d3, d4] =
     [bit_xor (bit_xor d1 d2) d4, bit_xor (bit_xor d1 d3) d4, d1,
      bit_xor (bit_xor d2 d3) d4, d2, d3, d4]"
| "spec_block _ = []"

definition spec_hamming_encode :: "int list \<Rightarrow> int list" where
  "spec_hamming_encode bits = concat (map spec_block (spec_groups bits))"

section \<open>Modulation and demodulation\<close>

text \<open>
  A BPSK signal is a real array, a QPSK or 16-QAM signal a complex one. Every
  symbol a modulator builds has coordinates among \<open>-3, -1, 1, 3\<close>, which floating
  point represents exactly, and \<^verbatim>\<open>2 * b - 1\<close> and \<^verbatim>\<open>I + 1j * Q\<close> are exact on them,
  so the symbols are modelled as real and complex numbers.
\<close>

definition bpsk_modulate :: "int list \<Rightarrow> real list" where
  "bpsk_modulate bits = map (\<lambda>b. 2 * real_of_int b - 1) bits"

definition bpsk_demodulate :: "real list \<Rightarrow> int list" where
  "bpsk_demodulate signal = map (\<lambda>s. if s \<ge> 0 then 1 else 0) signal"

text \<open>
  The loop of \<^verbatim>\<open>qpsk_modulate\<close> reads \<^verbatim>\<open>bits[i]\<close> and \<^verbatim>\<open>bits[i + 1]\<close> for
  \<open>i = 0, 2, 4, ...\<close> and skips an index whose successor is out of range.
\<close>

fun qpsk_symbols :: "int list \<Rightarrow> complex list" where
  "qpsk_symbols (b1 # b2 # rest) =
     (let I = (if b1 = 1 then 1 else - 1 :: int);
          Q = (if b2 = 1 then 1 else - 1 :: int)
      in (of_int I + \<i> * of_int Q) # qpsk_symbols rest)"
| "qpsk_symbols _ = []"

definition qpsk_modulate :: "int list \<Rightarrow> complex list" where
  "qpsk_modulate bits =
     (let bits = (if length bits mod 2 \<noteq> 0 then bits @ [0] else bits)
      in qpsk_symbols bits)"

definition qpsk_demodulate :: "complex list \<Rightarrow> int list" where
  "qpsk_demodulate symbols =
     concat (map (\<lambda>sym. [if Re sym \<ge> 0 then 1 else 0, if Im sym \<ge> 0 then 1 else 0]) symbols)"

text \<open>
  The dictionary \<^verbatim>\<open>mapping\<close> of \<^verbatim>\<open>qam16_modulate\<close>; a pair that is not a key raises
  \<^verbatim>\<open>KeyError\<close>.
\<close>

definition qam16_mapping :: "int \<times> int \<rightharpoonup> int" where
  "qam16_mapping = [(0, 0) \<mapsto> - 3, (0, 1) \<mapsto> - 1, (1, 1) \<mapsto> 1, (1, 0) \<mapsto> 3]"

fun qam16_symbols :: "int list \<Rightarrow> py_error + complex list" where
  "qam16_symbols (b1 # b2 # b3 # b4 # rest) =
     (case qam16_mapping (b1, b2) of
        None \<Rightarrow> Inl KeyError
      | Some I \<Rightarrow>
          (case qam16_mapping (b3, b4) of
             None \<Rightarrow> Inl KeyError
           | Some Q \<Rightarrow>
               (case qam16_symbols rest of
                  Inl e \<Rightarrow> Inl e
                | Inr symbols \<Rightarrow> Inr ((of_int I + \<i> * of_int Q) # symbols))))"
| "qam16_symbols _ = Inr []"

definition qam16_modulate :: "int list \<Rightarrow> py_error + complex list" where
  "qam16_modulate bits =
     (let bits = (if length bits mod 4 \<noteq> 0
                  then bits @ replicate (4 - length bits mod 4) 0 else bits)
      in qam16_symbols bits)"

definition qam16_demodulate :: "complex list \<Rightarrow> int list" where
  "qam16_demodulate symbols =
     concat (map (\<lambda>sym.
       (let I = Re sym; Q = Im sym
        in [if I > 0 then 1 else 0, if \<bar>I\<bar> < 2 then 1 else 0,
            if Q > 0 then 1 else 0, if \<bar>Q\<bar> < 2 then 1 else 0])) symbols)"

section \<open>The AWGN channel\<close>

text \<open>
  \<^verbatim>\<open>add_awgn_noise\<close> computes in double precision and draws from numpy's global
  random generator. Doubles (with nan and the infinities) are a type parameter
  \<open>'f\<close>, complex doubles a type parameter \<open>'c\<close>, and the operations the code applies
  to them are the fields of a record: the model assumes nothing of how they
  round. What the model fixes is which of them can raise. The two operations on
  Python numbers can: \<^verbatim>\<open>10 ** x\<close> raises \<^verbatim>\<open>OverflowError\<close> when the result is out
  of the double range, and \<^verbatim>\<open>n * x\<close> with an int \<open>n\<close> raises it when \<open>n\<close> does not
  convert to a float. \<^verbatim>\<open>EbN0_dB / 10\<close> divides by a constant that is not zero. The
  numpy operations return a value on every argument; where Python would raise
  they warn and return nan or an infinity.
\<close>

record ('f, 'c) float_ops =
  py_div10 :: "'f \<Rightarrow> 'f"
  py_pow10 :: "'f \<Rightarrow> py_error + 'f"
  py_int_mul :: "int \<Rightarrow> 'f \<Rightarrow> py_error + 'f"
  np_abs :: "'f \<Rightarrow> 'f"
  np_abs_c :: "'c \<Rightarrow> 'f"
  np_square :: "'f \<Rightarrow> 'f"
  np_nan :: "'f"
  np_mean_nonempty :: "'f list \<Rightarrow> 'f"
  np_div :: "'f \<Rightarrow> 'f \<Rightarrow> 'f"
  np_twice :: "'f \<Rightarrow> 'f"
  np_sqrt :: "'f \<Rightarrow> 'f"
  np_mul :: "'f \<Rightarrow> 'f \<Rightarrow> 'f"
  np_add :: "'f \<Rightarrow> 'f \<Rightarrow> 'f"
  np_complex :: "'f \<Rightarrow> 'f \<Rightarrow> 'c"
  np_mul_c :: "'f \<Rightarrow> 'c \<Rightarrow> 'c"
  np_add_c :: "'c \<Rightarrow> 'c \<Rightarrow> 'c"

text \<open>
  A signal is a one-dimensional array of dtype float64 or complex128;
  \<^verbatim>\<open>np.iscomplexobj\<close> tells which. An empty list of symbols makes
  \<^verbatim>\<open>np.array([])\<close>, of dtype float64, so the empty signal of every scheme is a
  real array in the program.
\<close>

datatype ('f, 'c) signal = Real_array "'f list" | Complex_array "'c list"

text \<open>
  The random generator is the sequence of the standard normal draws it will
  give; \<^verbatim>\<open>np.random.randn(n)\<close> returns the next \<open>n\<close> and leaves the rest.
\<close>

type_synonym 'f rng = "nat \<Rightarrow> 'f"

definition randn :: "nat \<Rightarrow> 'f rng \<Rightarrow> 'f list \<times> 'f rng" where
  "randn n g = (map g [0..<n], \<lambda>k. g (n + k))"

text \<open>
  \<^verbatim>\<open>np.mean\<close> of an empty array warns (\<^verbatim>\<open>RuntimeWarning: Mean of empty slice\<close>) and
  returns nan; a warning is not an exception.
\<close>

definition np_mean :: "('f, 'c) float_ops \<Rightarrow> 'f list \<Rightarrow> 'f" where
  "np_mean ops xs = (if xs = [] then np_nan ops else np_mean_nonempty ops xs)"

text \<open>
  \<^verbatim>\<open>add_awgn_noise\<close>, line by line; the result is the noisy signal and the
  generator after the draws. In the complex branch the draws of the real parts
  are taken before those of the imaginary parts.
\<close>

definition add_awgn_noise ::
  "('f, 'c) float_ops \<Rightarrow> 'f rng \<Rightarrow> ('f, 'c) signal \<Rightarrow> 'f \<Rightarrow> int
     \<Rightarrow> py_error + (('f, 'c) signal \<times> 'f rng)" where
  "add_awgn_noise ops g signal EbN0_dB bits_per_symbol =
     (case py_pow10 ops (py_div10 ops EbN0_dB) of
        Inl e \<Rightarrow> Inl e
      | Inr EbN0 \<Rightarrow>
          (let signal_power =
                 np_mean ops
                   (case signal of
                      Real_array xs \<Rightarrow> map (\<lambda>x. np_square ops (np_abs ops x)) xs
                    | Complex_array zs \<Rightarrow> map (\<lambda>z. np_square ops (np_abs_c ops z)) zs)
           in case py_int_mul ops (2 * bits_per_symbol) EbN0 of
                Inl e \<Rightarrow> Inl e
              | Inr denominator \<Rightarrow>
                  (let noise_power = np_div ops signal_power denominator
                   in case signal of
                        Complex_array zs \<Rightarrow>
                          (let (re_draws, g1) = randn (length zs) g;
                               (im_draws, g2) = randn (length zs) g1;
                               noise = map2 (\<lambda>a b. np_mul_c ops (np_sqrt ops noise_power)
                                                      (np_complex ops a b)) re_draws im_draws
                           in Inr (Complex_array (map2 (np_add_c ops) zs noise), g2))
                      | Real_array xs \<Rightarrow>
                          (let (draws, g1) = randn (length xs) g;
                               noise = map (np_mul ops (np_sqrt ops (np_twice ops noise_power)))
                                         draws
                           in Inr (Real_array (map2 (np_add ops) xs noise), g1)))))"

text \<open>
  One arithmetic to run the channel on: exact on the reals, with \<open>None\<close> for nan
  and for every result that is not a real number, and \<^verbatim>\<open>OverflowError\<close> beyond the
  double range. The statements about the channel hold for every arithmetic; this
  one is not the rounding of the machine.
\<close>

definition sample_ops :: "(real option, complex option) float_ops" where
  "sample_ops =
     \<lparr> py_div10 = map_option (\<lambda>x. x / 10),
       py_pow10 = (\<lambda>x. case x of
                          None \<Rightarrow> Inr None
                        | Some r \<Rightarrow> if 10 powr r < 2 ^ 1024 then Inr (Some (10 powr r))
                                    else Inl OverflowError),
       py_int_mul = (\<lambda>n x. if \<bar>n\<bar> < 2 ^ 1024 then Inr (map_option (\<lambda>r. of_int n * r) x)
                            else Inl OverflowError),
       np_abs = map_option abs,
       np_abs_c = map_option cmod,
       np_square = map_option (\<lambda>x. x * x),
       np_nan = None,
       np_mean_nonempty = (\<lambda>xs. if None \<in> set xs then None
                                  else Some (sum_list (map the xs) / of_nat (length xs))),
       np_div = (\<lambda>x y. case (x, y) of
                          (Some a, Some b) \<Rightarrow> if b = 0 then None else Some (a / b)
                        | _ \<Rightarrow> None),
       np_twice = map_option (\<lambda>x. 2 * x),
       np_sqrt = (\<lambda>x. case x of
                         Some a \<Rightarrow> if a < 0 then None else Some (sqrt a)
                       | None \<Rightarrow> None),
       np_mul = (\<lambda>x y. case (x, y) of (Some a, Some b) \<Rightarrow> Some (a * b) | _ \<Rightarrow> None),
       np_add = (\<lambda>x y. case (x, y) of (Some a, Some b) \<Rightarrow> Some (a + b) | _ \<Rightarrow> None),
       np_complex = (\<lambda>x y. case (x, y) of (Some a, Some b) \<Rightarrow> Some (Complex a b) | _ \<Rightarrow> None),
       np_mul_c = (\<lambda>x z. case (x, z) of (Some a, Some w) \<Rightarrow> Some (of_real a * w) | _ \<Rightarrow> None),
       np_add_c = (\<lambda>z w. case (z, w) of (Some a, Some b) \<Rightarrow> Some (a + b) | _ \<Rightarrow> None) \<rparr>"

section \<open>The decoder loop, block by block\<close>

lemma and_one_cases: "(x::int) AND 1 = 0 \<or> x AND 1 = 1"
  by (simp add: and_one_eq) presburger

lemma error_pos_range: "0 \<le> error_pos block \<and> error_pos block \<le> 7"
proof -
  have "\<And>a b c :: int. (a = 0 \<or> a = 1) \<Longrightarrow> (b = 0 \<or> b = 1) \<Longrightarrow> (c = 0 \<or> c = 1) \<Longrightarrow> 0 \<le> a + b * 2 + c * 4 \<and> a + b * 2 + c * 4 \<le> 7"
    by auto
  then show ?thesis
    unfolding error_pos_def Let_def using and_one_cases by blast
qed

lemma length_flip_at [simp]: "length (flip_at j arr) = length arr"
  by (simp add: flip_at_def)

lemma length_fix_block [simp]: "length (fix_block block) = length block"
  by (simp add: fix_block_def Let_def)

lemma split_block: "take i arr @ take 7 (drop i arr) @ drop (i + 7) arr = arr"
  by (metis append_take_drop_id drop_drop add.commute)

lemma flip_at_block:
  assumes "j < 7" "i + 7 \<le> length arr"
  shows "flip_at (i + j) arr = take i arr @ flip_at j (take 7 (drop i arr)) @ drop (i + 7) arr"
proof -
  have "flip_at (i + j) (take i arr @ take 7 (drop i arr) @ drop (i + 7) arr)
      = take i arr @ flip_at j (take 7 (drop i arr)) @ drop (i + 7) arr"
    using assms by (simp add: flip_at_def list_update_append nth_append)
  then show ?thesis by (simp only: split_block)
qed

lemma step_array:
  assumes "i + 7 \<le> length arr"
  shows "(let pos = error_pos (take 7 (drop i arr))
          in if pos \<noteq> 0 \<and> pos \<le> 7 then flip_at (i + nat (pos - 1)) arr else arr)
         = take i arr @ fix_block (take 7 (drop i arr)) @ drop (i + 7) arr"
proof -
  let ?b = "take 7 (drop i arr)"
  have id: "take i arr @ ?b @ drop (i + 7) arr = arr"
    by (rule split_block)
  show ?thesis
  proof (cases "error_pos ?b = 0")
    case True
    then show ?thesis using id by (simp add: fix_block_def Let_def)
  next
    case False
    have "nat (error_pos ?b - 1) < 7" using error_pos_range [of ?b] False by auto
    from flip_at_block [OF this assms] False error_pos_range [of ?b]
    show ?thesis by (simp add: fix_block_def Let_def)
  qed
qed

lemma loop_blocks:
  "hamming_decode_loop i arr decoded =
     (decoded @ dec_blocks (drop i arr), take i arr @ fix_blocks (drop i arr))"
proof (induction i arr decoded rule: hamming_decode_loop.induct)
  case (1 i arr decoded)
  show ?case
  proof (cases "i < length arr")
    case False
    then show ?thesis
      by (simp add: hamming_decode_loop.simps [of i arr] dec_blocks.simps [of "[]"] fix_blocks.simps [of "[]"])
  next
    case lt: True
    show ?thesis
    proof (cases "length (take 7 (drop i arr)) < 7")
      case True
      then have short: "length (drop i arr) < 7" by auto
      then have "drop (i + 7) arr = []" by auto
      with "1.IH"(1) [OF lt True] lt True short show ?thesis
        by (simp add: hamming_decode_loop.simps [of i arr] dec_blocks.simps [of "[]"] fix_blocks.simps [of "[]"]
             dec_blocks.simps [of "drop i arr"] fix_blocks.simps [of "drop i arr"])
    next
      case False
      then have full: "i + 7 \<le> length arr" by auto
      define b where "b = take 7 (drop i arr)"
      define arr' where "arr' = take i arr @ fix_block b @ drop (i + 7) arr"
      have lb: "length b = 7" using full by (simp add: b_def)
      have li: "length (take i arr) = i" using full by simp
      have st: "(let pos = error_pos (take 7 (drop i arr))
          in if pos \<noteq> 0 \<and> pos \<le> 7 then flip_at (i + nat (pos - 1)) arr else arr) = arr'"
        using step_array [OF full] by (simp add: arr'_def b_def)
      have nth: "\<And>k. k < 7 \<Longrightarrow> arr' ! (i + k) = fix_block b ! k"
        using li lb by (simp add: arr'_def nth_append)
      have dr: "drop (i + 7) arr' = drop (i + 7) arr"
        using li lb by (simp add: arr'_def)
      have tk: "take (i + 7) arr' = take i arr @ fix_block b"
        using li lb by (simp add: arr'_def)
      have ih: "hamming_decode_loop (i + 7) arr' (decoded @ [arr' ! (i + 2), arr' ! (i + 4), arr' ! (i + 5), arr' ! (i + 6)])
            = ((decoded @ [arr' ! (i + 2), arr' ! (i + 4), arr' ! (i + 5), arr' ! (i + 6)]) @ dec_blocks (drop (i + 7) arr'),
               take (i + 7) arr' @ fix_blocks (drop (i + 7) arr'))"
        using "1.IH"(2) [OF lt False refl refl] st [unfolded Let_def] by (simp add: Let_def)
      have lhs: "hamming_decode_loop i arr decoded =
          hamming_decode_loop (i + 7) arr' (decoded @ [arr' ! (i + 2), arr' ! (i + 4), arr' ! (i + 5), arr' ! (i + 6)])"
        using lt False st [unfolded Let_def] by (subst hamming_decode_loop.simps) (simp add: Let_def)
      have dl: "length (drop i arr) \<ge> 7" using full by simp
      have d7: "drop 7 (drop i arr) = drop (i + 7) arr" by (simp add: add.commute)
      show ?thesis
        unfolding lhs ih using dl d7 nth [of 2] nth [of 4] nth [of 5] nth [of 6]
        by (simp add: dr tk dec_blocks.simps [of "drop i arr"] fix_blocks.simps [of "drop i arr"] data_of_def b_def)
    qed
  qed
qed

lemma hamming_decode_blocks: "hamming_decode bits = dec_blocks bits"
  by (simp add: hamming_decode_def hamming_decode_st_def loop_blocks)

lemma hamming_decode_array: "snd (hamming_decode_st bits) = fix_blocks bits"
  by (simp add: hamming_decode_st_def loop_blocks)

lemma dec_blocks_short: "length xs < 7 \<Longrightarrow> dec_blocks xs = []"
  by (simp add: dec_blocks.simps [of xs])

lemma dec_blocks_full:
  "7 \<le> length xs \<Longrightarrow> dec_blocks xs = data_of (fix_block (take 7 xs)) @ dec_blocks (drop 7 xs)"
  by (simp add: dec_blocks.simps [of xs])

lemma length_dec_blocks: "length (dec_blocks xs) = 4 * (length xs div 7)"
proof (induction xs rule: dec_blocks.induct)
  case (1 xs)
  show ?case
  proof (cases "length xs < 7")
    case True
    then show ?thesis by (simp add: dec_blocks_short)
  next
    case False
    then have "length xs div 7 = Suc ((length xs - 7) div 7)"
      by presburger
    with False "1.IH" show ?thesis
      by (simp add: dec_blocks_full data_of_def)
  qed
qed

lemma dec_blocks_take: "dec_blocks (take (7 * (length xs div 7)) xs) = dec_blocks xs"
proof (induction xs rule: dec_blocks.induct)
  case (1 xs)
  show ?case
  proof (cases "length xs < 7")
    case True
    then show ?thesis by (simp add: dec_blocks_short)
  next
    case False
    let ?m = "7 * (length xs div 7)"
    have d: "length xs div 7 = Suc ((length xs - 7) div 7)"
      using False by presburger
    have m: "7 \<le> ?m" "?m \<le> length xs" "?m - 7 = 7 * (length (drop 7 xs) div 7)"
      using d by simp_all
    have t: "take 7 (take ?m xs) = take 7 xs"
      using m(1) by (simp add: min_def)
    have dr: "drop 7 (take ?m xs) = take (7 * (length (drop 7 xs) div 7)) (drop 7 xs)"
      using m(3) by (simp add: drop_take)
    have "dec_blocks (take ?m xs) = data_of (fix_block (take 7 (take ?m xs))) @ dec_blocks (drop 7 (take ?m xs))"
      using m by (intro dec_blocks_full) simp
    also have "\<dots> = data_of (fix_block (take 7 xs)) @ dec_blocks (drop 7 xs)"
      unfolding t dr using "1.IH" False by simp
    also have "\<dots> = dec_blocks xs"
      using False by (simp add: dec_blocks_full)
    finally show ?thesis .
  qed
qed

section \<open>Decoder truncation\<close>

text \<open>
  C8. For every array of length \<open>n\<close>, \<open>hamming_decode\<close> decodes only the first
  \<open>7 * (n div 7)\<close> elements: a trailing partial block of fewer than 7 bits is
  dropped, the output has \<open>4 * (n div 7)\<close> elements, and it is the output for the
  input cut to \<open>7 * (n div 7)\<close> elements.
\<close>

theorem hamming_decode_truncation:
  "length (hamming_decode bits) = 4 * (length bits div 7) \<and>
   hamming_decode bits = hamming_decode (take (7 * (length bits div 7)) bits)"
  by (simp only: hamming_decode_blocks length_dec_blocks dec_blocks_take)

theorem hamming_decode_truncation_witness:
  "length (hamming_decode [1, 0, 0, 1, 1, 0, 0, 1, 1]) = 4 * (length [1, 0, 0, 1, 1, 0, 0, 1, 1 :: int] div 7) \<and>
   hamming_decode [1, 0, 0, 1, 1, 0, 0, 1, 1] = hamming_decode [1, 0, 0, 1, 1, 0, 0] \<and>
   hamming_decode [1, 0, 0, 1, 1, 0, 0] = [0, 1, 0, 0]"
proof -
  have "hamming_decode [1, 0, 0, 1, 1, 0, 0] = [0, 1, 0, 0]"
    by (simp add: hamming_decode_blocks dec_blocks.simps [of "[1, 0, 0, 1, 1, 0, 0]"]
          dec_blocks_short data_of_def fix_block_def error_pos_def)
  with hamming_decode_truncation [of "[1, 0, 0, 1, 1, 0, 0, 1, 1]"] show ?thesis by simp
qed

section \<open>Single-error correction\<close>

lemma hamming_encode_Nil: "hamming_encode [] = []"
  by (simp add: hamming_encode.simps [of "[]"])

lemma hamming_encode_nibble:
  "hamming_encode (a # b # c # e # rest) =
     [(a XOR b XOR e) AND 1, (a XOR c XOR e) AND 1, a, (b XOR c XOR e) AND 1, b, c, e]
     @ hamming_encode rest"
  by (simp add: hamming_encode.simps [of "a # b # c # e # rest"] Let_def)

lemma dec_blocks_block:
  "dec_blocks (p1 # p2 # d1 # p3 # d2 # d3 # d4 # rest) =
     data_of (fix_block [p1, p2, d1, p3, d2, d3, d4]) @ dec_blocks rest"
  by (simp add: dec_blocks.simps [of "p1 # p2 # d1 # p3 # d2 # d3 # d4 # rest"])

lemma nibble_cases:
  assumes "length d = 4" "is_bits d"
  obtains a b c e where "d = [a, b, c, e]" "a = 0 \<or> a = 1" "b = 0 \<or> b = 1" "c = 0 \<or> c = 1" "e = 0 \<or> e = 1"
proof -
  from assms(1) obtain a b c e where "d = [a, b, c, e]"
    by (auto simp: length_Suc_conv numeral_eq_Suc)
  with assms(2) that show thesis by (simp add: is_bits_def)
qed

lemma below_7_cases:
  assumes "k < (7::nat)"
  shows "k = 0 \<or> k = 1 \<or> k = 2 \<or> k = 3 \<or> k = 4 \<or> k = 5 \<or> k = 6"
  using assms by arith

lemmas block_eval = hamming_encode_nibble hamming_encode_Nil hamming_decode_blocks dec_blocks_block
  dec_blocks_short error_pos_def fix_block_def flip_at_def data_of_def Let_def

text \<open>
  C2. Single-error correction. For every nibble of 4 bits, the block that
  \<open>hamming_encode\<close> produces has error position 0 and decodes to the nibble, and
  with the bit at index \<open>k\<close> (0 to 6) flipped the error position
  \<open>s1 + 2 * s2 + 4 * s3\<close> is \<open>k + 1\<close>, the 1-based index of the flipped bit, and
  \<open>hamming_decode\<close> still returns the nibble.
\<close>

theorem hamming_single_error_correction:
  assumes "length d = 4" and "is_bits d" and "k < 7"
  shows "error_pos (hamming_encode d) = 0 \<and>
         hamming_decode (hamming_encode d) = d \<and>
         error_pos ((hamming_encode d)[k := 1 - hamming_encode d ! k]) = int k + 1 \<and>
         hamming_decode ((hamming_encode d)[k := 1 - hamming_encode d ! k]) = d"
proof -
  from assms(1,2) obtain a b c e where d: "d = [a, b, c, e]"
    and bits: "a = 0 \<or> a = 1" "b = 0 \<or> b = 1" "c = 0 \<or> c = 1" "e = 0 \<or> e = 1"
    by (rule nibble_cases)
  from bits below_7_cases [OF assms(3)] show ?thesis
    unfolding d by (elim disjE; simp add: block_eval)
qed


theorem hamming_single_error_correction_witness:
  "length [1, 0, 1, 1 :: int] = 4 \<and> is_bits [1, 0, 1, 1] \<and> (4::nat) < 7 \<and>
   hamming_encode [1, 0, 1, 1] = [0, 1, 1, 0, 0, 1, 1] \<and>
   error_pos [0, 1, 1, 0, 0, 1, 1] = 0 \<and>
   error_pos [0, 1, 1, 0, 1, 1, 1] = 5 \<and>
   hamming_decode [0, 1, 1, 0, 1, 1, 1] = [1, 0, 1, 1]"
proof -
  have h: "length [1, 0, 1, 1 :: int] = 4" "is_bits [1, 0, 1, 1]" "(4::nat) < 7"
    by (simp_all add: is_bits_def)
  have enc: "hamming_encode [1, 0, 1, 1] = [0, 1, 1, 0, 0, 1, 1]"
    by (simp add: hamming_encode_nibble hamming_encode_Nil)
  from hamming_single_error_correction [OF h] h show ?thesis
    by (simp add: enc)
qed

section \<open>The decoder writes into its argument\<close>

lemma xor_one_neq: "(x::int) XOR 1 \<noteq> x"
  by (metis even_xor_iff odd_one)

lemma fix_block_eq_iff:
  assumes "length b = 7"
  shows "fix_block b = b \<longleftrightarrow> error_pos b = 0"
proof (cases "error_pos b = 0")
  case True
  then show ?thesis by (simp add: fix_block_def)
next
  case False
  with error_pos_range [of b] have j: "nat (error_pos b - 1) < length b"
    using assms by auto
  have "flip_at (nat (error_pos b - 1)) b ! nat (error_pos b - 1) \<noteq> b ! nat (error_pos b - 1)"
    using j by (simp add: flip_at_def xor_one_neq)
  then have "flip_at (nat (error_pos b - 1)) b \<noteq> b" by metis
  with False error_pos_range [of b] show ?thesis by (simp add: fix_block_def)
qed

lemma fix_blocks_short: "length xs < 7 \<Longrightarrow> fix_blocks xs = xs"
  by (simp add: fix_blocks.simps [of xs])

lemma fix_blocks_full:
  "7 \<le> length xs \<Longrightarrow> fix_blocks xs = fix_block (take 7 xs) @ fix_blocks (drop 7 xs)"
  by (simp add: fix_blocks.simps [of xs])

lemma length_fix_blocks [simp]: "length (fix_blocks xs) = length xs"
proof (induction xs rule: fix_blocks.induct)
  case (1 xs)
  then show ?case by (cases "length xs < 7") (simp_all add: fix_blocks_short fix_blocks_full)
qed

lemma clean_step:
  assumes "7 \<le> length xs"
  shows "clean xs \<longleftrightarrow> error_pos (take 7 xs) = 0 \<and> clean (drop 7 xs)"
proof
  assume c: "clean xs"
  have "error_pos (take 7 xs) = 0"
    using c [rule_format, of 0] assms by simp
  moreover have "clean (drop 7 xs)"
  proof (intro allI impI)
    fix k assume "7 * k + 7 \<le> length (drop 7 xs)"
    then have "7 * Suc k + 7 \<le> length xs" by simp
    from c [rule_format, OF this]
    show "error_pos (take 7 (drop (7 * k) (drop 7 xs))) = 0"
      by (simp add: add.commute)
  qed
  ultimately show "error_pos (take 7 xs) = 0 \<and> clean (drop 7 xs)" ..
next
  assume a: "error_pos (take 7 xs) = 0 \<and> clean (drop 7 xs)"
  show "clean xs"
  proof (intro allI impI)
    fix k assume k: "7 * k + 7 \<le> length xs"
    show "error_pos (take 7 (drop (7 * k) xs)) = 0"
    proof (cases k)
      case 0
      with a show ?thesis by simp
    next
      case (Suc k')
      with k have "7 * k' + 7 \<le> length (drop 7 xs)" by simp
      with a have "error_pos (take 7 (drop (7 * k') (drop 7 xs))) = 0"
        by simp
      with Suc show ?thesis by (simp add: add.commute)
    qed
  qed
qed

lemma fix_blocks_eq_iff: "fix_blocks xs = xs \<longleftrightarrow> clean xs"
proof (induction xs rule: fix_blocks.induct)
  case (1 xs)
  show ?case
  proof (cases "length xs < 7")
    case True
    then show ?thesis by (simp add: fix_blocks_short)
  next
    case False
    then have full: "7 \<le> length xs" by simp
    have "fix_blocks xs = xs \<longleftrightarrow>
          fix_block (take 7 xs) @ fix_blocks (drop 7 xs) = take 7 xs @ drop 7 xs"
      using full by (simp add: fix_blocks_full)
    also have "\<dots> \<longleftrightarrow> fix_block (take 7 xs) = take 7 xs \<and> fix_blocks (drop 7 xs) = drop 7 xs"
      by (rule append_eq_append_conv) simp
    also have "\<dots> \<longleftrightarrow> error_pos (take 7 xs) = 0 \<and> clean (drop 7 xs)"
      using full "1.IH" [OF False] by (simp add: fix_block_eq_iff)
    also have "\<dots> \<longleftrightarrow> clean xs"
      using clean_step [OF full] by simp
    finally show ?thesis .
  qed
qed

text \<open>
  C10. \<open>hamming_decode\<close> is not free of side effects: the array it was given is
  changed by the call exactly when it contains a full 7-bit block whose error
  position is not 0, since the correction flips that bit in the caller's array.
  \<open>hamming_decode_st\<close> returns the array as the call leaves it.
\<close>

theorem hamming_decode_modifies_argument:
  "snd (hamming_decode_st bits) \<noteq> bits \<longleftrightarrow>
     (\<exists>k. 7 * k + 7 \<le> length bits \<and> error_pos (take 7 (drop (7 * k) bits)) \<noteq> 0)"
  by (simp add: hamming_decode_array fix_blocks_eq_iff)

theorem hamming_decode_modifies_argument_witness:
  "7 * 0 + 7 \<le> length [1, 0, 0, 0, 0, 0, 0 :: int] \<and>
   error_pos (take 7 (drop (7 * 0) [1, 0, 0, 0, 0, 0, 0])) = 1 \<and>
   snd (hamming_decode_st [1, 0, 0, 0, 0, 0, 0]) \<noteq> [1, 0, 0, 0, 0, 0, 0]"
proof -
  have e: "error_pos (take 7 (drop (7 * 0) [1, 0, 0, 0, 0, 0, 0])) = 1"
    by (simp add: error_pos_def)
  then have "\<exists>k. 7 * k + 7 \<le> length [1, 0, 0, 0, 0, 0, 0 :: int] \<and>
      error_pos (take 7 (drop (7 * k) [1, 0, 0, 0, 0, 0, 0])) \<noteq> 0"
    by (intro exI [of _ 0]) simp
  with hamming_decode_modifies_argument [of "[1, 0, 0, 0, 0, 0, 0]"] e show ?thesis
    by simp
qed

section \<open>The encoder against its specification\<close>

lemma hamming_encode_short:
  "hamming_encode [a] = [a AND 1, a AND 1, a, 0, 0, 0, 0]"
  "hamming_encode [a, b] = [(a XOR b) AND 1, a AND 1, a, b AND 1, b, 0, 0]"
  "hamming_encode [a, b, c] = [(a XOR b) AND 1, (a XOR c) AND 1, a, (b XOR c) AND 1, b, c, 0]"
  by (simp_all add: hamming_encode.simps [of "[a]"] hamming_encode.simps [of "[a, b]"]
        hamming_encode.simps [of "[a, b, c]"] hamming_encode_Nil Let_def)

lemma replicate_small:
  "replicate 3 x = [x, x, x]" "replicate 2 x = [x, x]"
  by (simp_all add: numeral_eq_Suc)

lemma parity_bit_xor:
  assumes "a = 0 \<or> a = 1" "b = 0 \<or> b = 1" "c = 0 \<or> c = 1"
  shows "(a XOR b XOR c) AND 1 = bit_xor (bit_xor a b) c"
  using assms by (elim disjE; simp add: bit_xor_def)

lemma bit_xor_zero:
  assumes "a = 0 \<or> a = 1" "b = 0 \<or> b = 1"
  shows "(a XOR b) AND 1 = bit_xor (bit_xor a b) 0"
  using assms by (elim disjE; simp add: bit_xor_def)

lemma bit_xor_zero_zero:
  assumes "a = 0 \<or> a = 1"
  shows "a AND 1 = bit_xor (bit_xor a 0) 0"
  using assms by (elim disjE; simp add: bit_xor_def)

lemma bit_xor_zeros: "bit_xor (bit_xor 0 0) 0 = 0"
  by (simp add: bit_xor_def)

lemma hamming_encode_spec:
  "is_bits bits \<Longrightarrow> hamming_encode bits = spec_hamming_encode bits"
proof (induction bits rule: spec_groups.induct)
  case (1 a b c d rest)
  then show ?case
    by (simp add: hamming_encode_nibble spec_hamming_encode_def is_bits_def parity_bit_xor)
qed (simp_all add: hamming_encode_Nil hamming_encode_short spec_hamming_encode_def is_bits_def
      bit_xor_zero bit_xor_zero_zero bit_xor_zeros replicate_small)

lemma length_hamming_encode:
  "length (hamming_encode bits) = (length bits + 3) div 4 * 7"
proof (induction bits rule: spec_groups.induct)
  case (1 a b c d rest)
  have "(length (a # b # c # d # rest) + 3) div 4 = Suc ((length rest + 3) div 4)"
    by simp
  with 1 show ?case by (simp add: hamming_encode_nibble)
qed (simp_all add: hamming_encode_Nil hamming_encode_short)

text \<open>
  C4. On every bit sequence \<open>hamming_encode\<close> is the encoder of the
  specification: the input cut into 4-bit groups, the last one filled with zeros,
  each group \<open>(d1, d2, d3, d4)\<close> giving \<open>[p1, p2, d1, p3, d2, d3, d4]\<close> with
  \<open>p1 = d1 xor d2 xor d4\<close>, \<open>p2 = d1 xor d3 xor d4\<close>, \<open>p3 = d2 xor d3 xor d4\<close>, in
  order; and the output has \<open>ceil(n / 4) * 7\<close> elements for an input of \<open>n\<close>.
\<close>

theorem hamming_encode_definition:
  assumes "is_bits bits"
  shows "hamming_encode bits = spec_hamming_encode bits \<and>
         length (hamming_encode bits) = (length bits + 3) div 4 * 7"
proof (intro conjI)
  show "hamming_encode bits = spec_hamming_encode bits"
    by (rule hamming_encode_spec [OF assms])
  show "length (hamming_encode bits) = (length bits + 3) div 4 * 7"
    by (rule length_hamming_encode)
qed

theorem hamming_encode_definition_witness:
  "is_bits [0, 1, 0, 0, 1] \<and>
   hamming_encode [0, 1, 0, 0, 1] = [1, 0, 0, 1, 1, 0, 0, 1, 1, 1, 0, 0, 0, 0] \<and>
   spec_hamming_encode [0, 1, 0, 0, 1] = [1, 0, 0, 1, 1, 0, 0, 1, 1, 1, 0, 0, 0, 0] \<and>
   length (hamming_encode [0, 1, 0, 0, 1]) = (length [0, 1, 0, 0, 1 :: int] + 3) div 4 * 7"
proof -
  have h: "is_bits [0, 1, 0, 0, 1]" by (simp add: is_bits_def)
  have s: "spec_hamming_encode [0, 1, 0, 0, 1] = [1, 0, 0, 1, 1, 0, 0, 1, 1, 1, 0, 0, 0, 0]"
    by (simp add: spec_hamming_encode_def bit_xor_def replicate_small)
  from hamming_encode_definition [OF h] h s show ?thesis by simp
qed

section \<open>Modulation without noise\<close>

lemma bpsk_identity: "is_bits bits \<Longrightarrow> bpsk_demodulate (bpsk_modulate bits) = bits"
  by (induction bits) (auto simp: is_bits_def bpsk_modulate_def bpsk_demodulate_def)

lemma qpsk_demodulate_Cons:
  "qpsk_demodulate (z # symbols) =
     [if Re z \<ge> 0 then 1 else 0, if Im z \<ge> 0 then 1 else 0] @ qpsk_demodulate symbols"
  by (simp add: qpsk_demodulate_def)

lemma qpsk_symbols_identity:
  "is_bits bits \<Longrightarrow> length bits mod 2 = 0 \<Longrightarrow> qpsk_demodulate (qpsk_symbols bits) = bits"
proof (induction bits rule: qpsk_symbols.induct)
  case (1 b1 b2 rest)
  then have "qpsk_demodulate (qpsk_symbols rest) = rest"
    by (simp add: is_bits_def)
  moreover from 1 have "b1 = 0 \<or> b1 = 1" "b2 = 0 \<or> b2 = 1"
    by (simp_all add: is_bits_def)
  ultimately show ?case
    by (auto simp: qpsk_demodulate_Cons Let_def)
qed (simp_all add: qpsk_demodulate_def)

lemma qam16_demodulate_Cons:
  "qam16_demodulate (z # symbols) =
     [if Re z > 0 then 1 else 0, if \<bar>Re z\<bar> < 2 then 1 else 0,
      if Im z > 0 then 1 else 0, if \<bar>Im z\<bar> < 2 then 1 else 0] @ qam16_demodulate symbols"
  by (simp add: qam16_demodulate_def Let_def)

lemma qam16_mapping_bits:
  "qam16_mapping (0, 0) = Some (- 3)" "qam16_mapping (0, 1) = Some (- 1)"
  "qam16_mapping (1, 1) = Some 1" "qam16_mapping (1, 0) = Some 3"
  by (simp_all add: qam16_mapping_def)

lemma qam16_symbols_identity:
  "is_bits bits \<Longrightarrow> length bits mod 4 = 0 \<Longrightarrow>
     \<exists>symbols. qam16_symbols bits = Inr symbols \<and> qam16_demodulate symbols = bits"
proof (induction bits rule: qam16_symbols.induct)
  case (1 b1 b2 b3 b4 rest)
  from "1.prems" have bits: "b1 = 0 \<or> b1 = 1" "b2 = 0 \<or> b2 = 1" "b3 = 0 \<or> b3 = 1" "b4 = 0 \<or> b4 = 1"
    and rest: "is_bits rest" "length rest mod 4 = 0"
    by (simp_all add: is_bits_def)
  from bits(1,2) obtain I where I: "qam16_mapping (b1, b2) = Some I"
    by (auto simp: qam16_mapping_bits)
  from bits(3,4) obtain Q where Q: "qam16_mapping (b3, b4) = Some Q"
    by (auto simp: qam16_mapping_bits)
  from "1.IH" [OF I Q rest] obtain symbols
    where r: "qam16_symbols rest = Inr symbols" "qam16_demodulate symbols = rest"
    by blast
  from bits show ?case
    by (elim disjE; simp add: r qam16_mapping_bits qam16_demodulate_Cons)
qed (simp_all add: qam16_demodulate_def)

text \<open>
  C3. Without noise, demodulation undoes modulation: for every bit sequence the
  BPSK demodulator applied to the BPSK signal returns the bits; so does QPSK when
  the length is a multiple of 2, and 16-QAM when the length is a multiple of 4
  (where the modulator raises no \<^verbatim>\<open>KeyError\<close>).
\<close>

theorem modulation_identity:
  assumes "is_bits bits"
  shows "bpsk_demodulate (bpsk_modulate bits) = bits \<and>
         (length bits mod 2 = 0 \<longrightarrow> qpsk_demodulate (qpsk_modulate bits) = bits) \<and>
         (length bits mod 4 = 0 \<longrightarrow>
            (\<exists>symbols. qam16_modulate bits = Inr symbols \<and> qam16_demodulate symbols = bits))"
proof (intro conjI impI)
  show "bpsk_demodulate (bpsk_modulate bits) = bits"
    by (rule bpsk_identity [OF assms])
next
  assume "length bits mod 2 = 0"
  with assms show "qpsk_demodulate (qpsk_modulate bits) = bits"
    by (simp add: qpsk_modulate_def qpsk_symbols_identity)
next
  assume "length bits mod 4 = 0"
  with assms show "\<exists>symbols. qam16_modulate bits = Inr symbols \<and> qam16_demodulate symbols = bits"
    by (simp add: qam16_modulate_def qam16_symbols_identity)
qed

theorem modulation_identity_witness:
  "is_bits [0, 1, 1, 0] \<and> length [0, 1, 1, 0 :: int] mod 2 = 0 \<and> length [0, 1, 1, 0 :: int] mod 4 = 0 \<and>
   bpsk_modulate [0, 1, 1, 0] = [- 1, 1, 1, - 1] \<and>
   bpsk_demodulate (bpsk_modulate [0, 1, 1, 0]) = [0, 1, 1, 0] \<and>
   qpsk_modulate [0, 1, 1, 0] = [Complex (- 1) 1, Complex 1 (- 1)] \<and>
   qpsk_demodulate (qpsk_modulate [0, 1, 1, 0]) = [0, 1, 1, 0] \<and>
   qam16_modulate [0, 1, 1, 0] = Inr [Complex (- 1) 3] \<and>
   qam16_demodulate [Complex (- 1) 3] = [0, 1, 1, 0]"
proof -
  have h: "is_bits [0, 1, 1, 0]" by (simp add: is_bits_def)
  have b: "bpsk_modulate [0, 1, 1, 0] = [- 1, 1, 1, - 1]"
    by (simp add: bpsk_modulate_def)
  have q: "qpsk_modulate [0, 1, 1, 0] = [Complex (- 1) 1, Complex 1 (- 1)]"
    by (simp add: qpsk_modulate_def complex_eq_iff)
  have m: "qam16_modulate [0, 1, 1, 0] = Inr [Complex (- 1) 3]"
    by (simp add: qam16_modulate_def qam16_mapping_bits complex_eq_iff)
  from modulation_identity [OF h] h b q m show ?thesis by simp
qed

section \<open>The empty input\<close>

lemma chunks8_Nil: "chunks8 [] = []"
  by (simp add: chunks8.simps [of "[]"])

lemma randn_zero: "randn 0 g = ([], g)"
  by (simp add: randn_def)

lemma add_awgn_noise_empty:
  assumes "py_pow10 ops (py_div10 ops EbN0_dB) = Inr EbN0"
    and "py_int_mul ops (2 * bits_per_symbol) EbN0 = Inr denominator"
  shows "add_awgn_noise ops g (Real_array []) EbN0_dB bits_per_symbol = Inr (Real_array [], g)"
    and "add_awgn_noise ops g (Complex_array []) EbN0_dB bits_per_symbol = Inr (Complex_array [], g)"
  using assms by (simp_all add: add_awgn_noise_def randn_zero)

lemma add_awgn_noise_error:
  "add_awgn_noise ops g s EbN0_dB bits_per_symbol = Inl e \<longleftrightarrow>
     py_pow10 ops (py_div10 ops EbN0_dB) = Inl e \<or>
     (\<exists>EbN0. py_pow10 ops (py_div10 ops EbN0_dB) = Inr EbN0 \<and>
        py_int_mul ops (2 * bits_per_symbol) EbN0 = Inl e)"
  by (cases s) (auto simp: add_awgn_noise_def Let_def split: sum.splits prod.splits)

lemma add_awgn_noise_error_any_signal:
  assumes "add_awgn_noise ops g s EbN0_dB bits_per_symbol = Inl e"
  shows "add_awgn_noise ops g' s' EbN0_dB bits_per_symbol = Inl e"
  using assms by (simp only: add_awgn_noise_error)

lemma sample_pow10:
  "py_pow10 sample_ops (py_div10 sample_ops (Some 10)) = Inr (Some 10)"
  "py_pow10 sample_ops (py_div10 sample_ops (Some 4000)) = Inl OverflowError"
  by (simp_all add: sample_ops_def)

lemma sample_int_mul:
  "py_int_mul sample_ops (2 * 1) (Some 10) = Inr (Some 20)"
  "py_int_mul sample_ops (2 * 2) (Some 10) = Inr (Some 40)"
  "py_int_mul sample_ops (2 * 4) (Some 10) = Inr (Some 80)"
  by (simp_all add: sample_ops_def)

text \<open>
  C9. The empty input, stage by stage in the order of the program. The empty
  text gives no bits; \<open>hamming_encode\<close> of no bits is empty; each modulator maps
  the empty input to the empty signal; the channel returns the empty signal of
  the kind it was given, real or complex, and leaves the random generator as it
  was; each demodulator maps the empty signal to no bits; \<open>hamming_decode\<close> of
  the empty array is empty and leaves it empty; and \<open>bits_to_text\<close> of no bits is
  the empty string. No stage raises on the empty input. The channel holds for
  every floating-point arithmetic and every generator: \<^verbatim>\<open>np.mean\<close> of the empty
  array is nan with a warning, and the nan never meets an element. Its
  hypotheses are that the two operations on its parameters return values,
  \<^verbatim>\<open>10 ** (EbN0_dB / 10)\<close> and \<^verbatim>\<open>2 * bits_per_symbol * EbN0\<close>; they read no
  signal, so an exception at the empty signal is raised for every signal alike.
  Python raises there only beyond the double range, far from the 0 to 20 dB and
  the 1, 2 or 4 bits per symbol that \<^verbatim>\<open>main\<close> passes.
\<close>

theorem empty_input:
  "text_to_bits [] = [] \<and>
   hamming_encode [] = [] \<and>
   bpsk_modulate [] = [] \<and> qpsk_modulate [] = [] \<and> qam16_modulate [] = Inr [] \<and>
   (py_pow10 ops (py_div10 ops EbN0_dB) = Inr EbN0 \<longrightarrow>
    py_int_mul ops (2 * bits_per_symbol) EbN0 = Inr denominator \<longrightarrow>
      add_awgn_noise ops g (Real_array []) EbN0_dB bits_per_symbol = Inr (Real_array [], g) \<and>
      add_awgn_noise ops g (Complex_array []) EbN0_dB bits_per_symbol
        = Inr (Complex_array [], g)) \<and>
   (add_awgn_noise ops g (Real_array []) EbN0_dB bits_per_symbol = Inl e \<or>
    add_awgn_noise ops g (Complex_array []) EbN0_dB bits_per_symbol = Inl e \<longrightarrow>
      add_awgn_noise ops g' s EbN0_dB bits_per_symbol = Inl e) \<and>
   bpsk_demodulate [] = [] \<and> qpsk_demodulate [] = [] \<and> qam16_demodulate [] = [] \<and>
   hamming_decode_st [] = ([], []) \<and> hamming_decode [] = [] \<and>
   bits_to_text [] = Inr []"
proof -
  have codec: "text_to_bits [] = []" "hamming_encode [] = []"
    "hamming_decode_st [] = ([], [])" "hamming_decode [] = []" "bits_to_text [] = Inr []"
    by (simp_all add: text_to_bits_def hamming_encode_Nil hamming_decode_def hamming_decode_st_def
          hamming_decode_loop.simps [of 0 "[]"] bits_to_text_def chunks8_Nil)
  have modem: "bpsk_modulate [] = []" "qpsk_modulate [] = []" "qam16_modulate [] = Inr []"
    "bpsk_demodulate [] = []" "qpsk_demodulate [] = []" "qam16_demodulate [] = []"
    by (simp_all add: bpsk_modulate_def bpsk_demodulate_def qpsk_modulate_def qpsk_demodulate_def
          qam16_modulate_def qam16_demodulate_def)
  have channel: "py_pow10 ops (py_div10 ops EbN0_dB) = Inr EbN0 \<longrightarrow>
      py_int_mul ops (2 * bits_per_symbol) EbN0 = Inr denominator \<longrightarrow>
        add_awgn_noise ops g (Real_array []) EbN0_dB bits_per_symbol = Inr (Real_array [], g) \<and>
        add_awgn_noise ops g (Complex_array []) EbN0_dB bits_per_symbol
          = Inr (Complex_array [], g)"
    using add_awgn_noise_empty [of ops EbN0_dB EbN0 bits_per_symbol denominator g] by blast
  have raise: "add_awgn_noise ops g (Real_array []) EbN0_dB bits_per_symbol = Inl e \<or>
      add_awgn_noise ops g (Complex_array []) EbN0_dB bits_per_symbol = Inl e \<longrightarrow>
        add_awgn_noise ops g' s EbN0_dB bits_per_symbol = Inl e"
    using add_awgn_noise_error_any_signal [of ops g _ EbN0_dB bits_per_symbol e g' s] by blast
  from codec modem channel raise show ?thesis by (intro conjI)
qed

theorem empty_input_witness:
  "hamming_encode (text_to_bits []) = [] \<and>
   py_pow10 sample_ops (py_div10 sample_ops (Some 10)) = Inr (Some 10) \<and>
   py_int_mul sample_ops (2 * 1) (Some 10) = Inr (Some 20) \<and>
   py_int_mul sample_ops (2 * 2) (Some 10) = Inr (Some 40) \<and>
   py_int_mul sample_ops (2 * 4) (Some 10) = Inr (Some 80) \<and>
   add_awgn_noise sample_ops (\<lambda>k. Some 0)
       (Real_array (map Some (bpsk_modulate (hamming_encode (text_to_bits []))))) (Some 10) 1
     = Inr (Real_array [], \<lambda>k. Some 0) \<and>
   add_awgn_noise sample_ops (\<lambda>k. Some 0)
       (Complex_array (map Some (qpsk_modulate (hamming_encode (text_to_bits []))))) (Some 10) 2
     = Inr (Complex_array [], \<lambda>k. Some 0) \<and>
   add_awgn_noise sample_ops (\<lambda>k. Some 0) (Real_array []) (Some 10) 2
     = Inr (Real_array [], \<lambda>k. Some 0) \<and>
   qam16_modulate (hamming_encode (text_to_bits [])) = Inr [] \<and>
   add_awgn_noise sample_ops (\<lambda>k. Some 0) (Complex_array []) (Some 10) 4
     = Inr (Complex_array [], \<lambda>k. Some 0) \<and>
   add_awgn_noise sample_ops (\<lambda>k. Some 0) (Real_array []) (Some 10) 4
     = Inr (Real_array [], \<lambda>k. Some 0) \<and>
   bits_to_text (hamming_decode (bpsk_demodulate [])) = Inr [] \<and>
   bits_to_text (hamming_decode (qpsk_demodulate [])) = Inr [] \<and>
   bits_to_text (hamming_decode (qam16_demodulate [])) = Inr [] \<and>
   add_awgn_noise sample_ops (\<lambda>k. Some 0) (Real_array []) (Some 4000) 1 = Inl OverflowError \<and>
   add_awgn_noise sample_ops (\<lambda>k. Some 1) (Real_array [Some 1, Some (- 1)]) (Some 4000) 1
     = Inl OverflowError"
proof -
  note at1 = empty_input [of sample_ops "Some 10" "Some 10" 1 "Some 20" "\<lambda>k. Some 0"
      OverflowError "\<lambda>k. Some 0" "Real_array []"]
  note at2 = empty_input [of sample_ops "Some 10" "Some 10" 2 "Some 40" "\<lambda>k. Some 0"
      OverflowError "\<lambda>k. Some 0" "Real_array []"]
  note at4 = empty_input [of sample_ops "Some 10" "Some 10" 4 "Some 80" "\<lambda>k. Some 0"
      OverflowError "\<lambda>k. Some 0" "Real_array []"]
  have bad: "add_awgn_noise sample_ops (\<lambda>k. Some 0) (Real_array []) (Some 4000) 1
      = Inl OverflowError"
    by (simp add: add_awgn_noise_def sample_pow10)
  have ok1: "add_awgn_noise sample_ops (\<lambda>k. Some 0) (Real_array []) (Some 10) 1
      = Inr (Real_array [], \<lambda>k. Some 0)"
    using at1 sample_pow10(1) sample_int_mul(1) by blast
  have ok2: "add_awgn_noise sample_ops (\<lambda>k. Some 0) (Real_array []) (Some 10) 2
      = Inr (Real_array [], \<lambda>k. Some 0)"
    "add_awgn_noise sample_ops (\<lambda>k. Some 0) (Complex_array []) (Some 10) 2
      = Inr (Complex_array [], \<lambda>k. Some 0)"
    using at2 sample_pow10(1) sample_int_mul(2) by blast+
  have ok4: "add_awgn_noise sample_ops (\<lambda>k. Some 0) (Real_array []) (Some 10) 4
      = Inr (Real_array [], \<lambda>k. Some 0)"
    "add_awgn_noise sample_ops (\<lambda>k. Some 0) (Complex_array []) (Some 10) 4
      = Inr (Complex_array [], \<lambda>k. Some 0)"
    using at4 sample_pow10(1) sample_int_mul(3) by blast+
  have indep: "add_awgn_noise sample_ops (\<lambda>k. Some 1) (Real_array [Some 1, Some (- 1)]) (Some 4000) 1
      = Inl OverflowError"
    using empty_input [of sample_ops "Some 4000" None 1 None "\<lambda>k. Some 0"
        OverflowError "\<lambda>k. Some 1" "Real_array [Some 1, Some (- 1)]"] bad
    by blast
  have stages: "text_to_bits [] = []" "hamming_encode [] = []" "bpsk_modulate [] = []"
    "qpsk_modulate [] = []" "qam16_modulate [] = Inr []" "bpsk_demodulate [] = []"
    "qpsk_demodulate [] = []" "qam16_demodulate [] = []" "hamming_decode [] = []"
    "bits_to_text [] = Inr []"
    using at1 by blast+
  show ?thesis
    by (simp add: stages ok1 ok2 ok4 bad indep sample_pow10 sample_int_mul [simplified])
qed

section \<open>Text round trip\<close>

text \<open>
  Where every character has a code point below 256, \<open>text_to_bits\<close> emits 8 bits
  per character, the big-endian binary numeral of the code point, and both
  \<open>bits_to_text\<close> alone and the whole chain through the Hamming coder give the
  text back.
\<close>

lemma bin_digits_small: "n < 2 \<Longrightarrow> bin_digits n = [int n]"
  by (simp add: bin_digits.simps [of n])

lemma bin_digits_step: "2 \<le> n \<Longrightarrow> bin_digits n = bin_digits (n div 2) @ [int (n mod 2)]"
  by (simp add: bin_digits.simps [of n])

lemma is_bits_append [simp]: "is_bits (xs @ ys) \<longleftrightarrow> is_bits xs \<and> is_bits ys"
  by (simp add: is_bits_def)

lemma is_bits_bin_digits: "is_bits (bin_digits n)"
proof (induction n rule: bin_digits.induct)
  case (1 n)
  show ?case
  proof (cases "n < 2")
    case True
    then have "n = 0 \<or> n = 1" by arith
    with True show ?thesis by (auto simp: bin_digits_small is_bits_def)
  next
    case False
    have "n mod 2 = 0 \<or> n mod 2 = 1" by arith
    with False "1.IH" show ?thesis
      by (auto simp: bin_digits_step is_bits_def)
  qed
qed

lemma bin_value_bin_digits: "bin_value (bin_digits n) = int n"
proof (induction n rule: bin_digits.induct)
  case (1 n)
  show ?case
  proof (cases "n < 2")
    case True
    then show ?thesis by (simp add: bin_digits_small bin_value_def)
  next
    case False
    with "1.IH" have "bin_value (bin_digits (n div 2)) = int (n div 2)" by simp
    with False show ?thesis
      by (simp add: bin_digits_step bin_value_def) presburger
  qed
qed

lemma length_bin_digits: "n < 2 ^ k \<Longrightarrow> 0 < k \<Longrightarrow> length (bin_digits n) \<le> k"
proof (induction n arbitrary: k rule: bin_digits.induct)
  case (1 n)
  show ?case
  proof (cases "n < 2")
    case True
    with "1.prems" show ?thesis by (simp add: bin_digits_small)
  next
    case False
    with "1.prems" obtain j where k: "k = Suc j" "0 < j"
      by (cases k; cases "k - 1") auto
    with "1.prems" have "n div 2 < 2 ^ j" by auto
    with "1.IH" [OF False this] k False show ?thesis
      by (simp add: bin_digits_step)
  qed
qed

lemma bin_value_zeros: "bin_value (replicate k 0 @ ds) = bin_value ds"
  by (induction k) (simp_all add: bin_value_def)

lemma format_08b_byte:
  assumes "c < 256"
  shows "length (format_08b c) = 8" "is_bits (format_08b c)" "bin_value (format_08b c) = int c"
proof -
  have "length (bin_digits c) \<le> 8"
    using assms by (intro length_bin_digits) simp_all
  then show "length (format_08b c) = 8" by (simp add: format_08b_def)
  show "is_bits (format_08b c)"
    by (simp add: format_08b_def is_bits_bin_digits) (simp add: is_bits_def list_all_iff)
  show "bin_value (format_08b c) = int c"
    by (simp add: format_08b_def bin_value_zeros bin_value_bin_digits)
qed


lemma str_int_bit: "str_int 0 = ''0''" "str_int 1 = ''1''"
  by (simp_all add: str_int_def str_nat.simps [of 0] str_nat.simps [of "Suc 0"] digit_char_def)

lemma concat_str_int_bits: "is_bits ds \<Longrightarrow> concat (map str_int ds) = bit_chars ds"
  by (induction ds) (auto simp: is_bits_def bit_chars_def str_int_bit)

lemma bin_str_value_bit_chars:
  "is_bits ds \<Longrightarrow>
     foldl (\<lambda>acc c. 2 * acc + (if c = CHR ''1'' then 1 else 0)) a (bit_chars ds)
       = foldl (\<lambda>acc d. 2 * acc + d) a ds"
  by (induction ds arbitrary: a) (auto simp: is_bits_def bit_chars_def)

lemma int_base2_bits:
  assumes "is_bits ds" "ds \<noteq> []"
  shows "int_base2 (concat (map str_int ds)) = Inr (bin_value ds)"
proof -
  have all: "list_all is_bin_digit (bit_chars ds)"
    by (induction ds) (simp_all add: bit_chars_def is_bin_digit_def)
  have ne: "bit_chars ds \<noteq> []" using assms(2) by (simp add: bit_chars_def)
  have "is_bin_digit (hd (bit_chars ds))"
    using all ne by (cases "bit_chars ds") simp_all
  then have hd: "hd (bit_chars ds) \<noteq> CHR ''-''"
    by (auto simp: is_bin_digit_def)
  show ?thesis
    using all ne hd bin_str_value_bit_chars [OF assms(1), of 0]
    by (simp add: int_base2_def concat_str_int_bits [OF assms(1)] bin_str_value_def bin_value_def)
qed

lemma byte_char_format_08b:
  assumes "c < 256"
  shows "byte_char (format_08b c) = Inr c"
proof -
  have "format_08b c \<noteq> []" using format_08b_byte(1) [OF assms] by auto
  with format_08b_byte [OF assms] assms show ?thesis
    by (simp add: byte_char_def int_base2_bits py_chr_def)
qed

lemma chunks8_byte:
  assumes "length byte = 8"
  shows "chunks8 (byte @ rest) = byte # chunks8 rest"
  using assms by (subst chunks8.simps) auto

lemma text_to_bits_Cons: "text_to_bits (c # cs) = format_08b c @ text_to_bits cs"
  by (simp add: text_to_bits_def)

lemma text_to_bits_latin1:
  assumes "list_all (\<lambda>c. c < 256) msg"
  shows "length (text_to_bits msg) = 8 * length msg" "is_bits (text_to_bits msg)"
    "chars_of (chunks8 (text_to_bits msg)) = Inr msg"
  using assms
proof (induction msg)
  case Nil
  {
    case 1 show ?case by (simp add: text_to_bits_def)
  next
    case 2 show ?case by (simp add: text_to_bits_def is_bits_def)
  next
    case 3 show ?case by (simp add: text_to_bits_def chunks8_Nil)
  }
next
  case (Cons c cs)
  {
    case 1 with Cons.IH(1) show ?case
      by (simp add: text_to_bits_Cons format_08b_byte)
  next
    case 2 with Cons.IH(2) show ?case
      by (simp add: text_to_bits_Cons format_08b_byte)
  next
    case 3 with Cons.IH(3) show ?case
      by (simp add: text_to_bits_Cons format_08b_byte chunks8_byte byte_char_format_08b)
  }
qed

lemma bits_to_text_text_to_bits:
  assumes "list_all (\<lambda>c. c < 256) msg"
  shows "bits_to_text (text_to_bits msg) = Inr msg"
  using text_to_bits_latin1 [OF assms] by (simp add: bits_to_text_def)


lemma nibbles_induct [consumes 1, case_names Nil Nibble]:
  assumes len: "length xs mod 4 = 0"
    and nil: "P []"
    and step: "\<And>a b c d rest. length rest mod 4 = 0 \<Longrightarrow> P rest \<Longrightarrow> P (a # b # c # d # rest)"
  shows "P xs"
  using len
proof (induction xs rule: length_induct)
  case (1 xs)
  show ?case
  proof (cases xs)
    case Nil
    with nil show ?thesis by simp
  next
    case (Cons a ys)
    with "1.prems" obtain b c d rest where xs: "xs = a # b # c # d # rest"
      by (cases ys; cases "tl ys"; cases "tl (tl ys)") auto
    with "1.prems" have r: "length rest mod 4 = 0" by simp
    have "length rest < length xs" using xs by simp
    with "1.IH" [rule_format, of rest] r have "P rest" by simp
    with r xs show ?thesis by (simp add: step)
  qed
qed

lemma nibble_round_trip:
  assumes "a = 0 \<or> a = 1" "b = 0 \<or> b = 1" "c = 0 \<or> c = 1" "e = 0 \<or> e = 1"
  shows "data_of (fix_block [(a XOR b XOR e) AND 1, (a XOR c XOR e) AND 1, a,
                             (b XOR c XOR e) AND 1, b, c, e]) = [a, b, c, e]"
  using assms by (elim disjE; simp add: data_of_def fix_block_def error_pos_def)

lemma hamming_round_trip:
  assumes "length bits mod 4 = 0" "is_bits bits"
  shows "hamming_decode (hamming_encode bits) = bits"
  using assms
proof (induction bits rule: nibbles_induct)
  case Nil
  show ?case by (simp add: hamming_decode_blocks hamming_encode_Nil dec_blocks_short)
next
  case (Nibble a b c d rest)
  then have "a = 0 \<or> a = 1" "b = 0 \<or> b = 1" "c = 0 \<or> c = 1" "d = 0 \<or> d = 1"
    and "dec_blocks (hamming_encode rest) = rest"
    by (simp_all add: is_bits_def hamming_decode_blocks)
  then show ?case
    by (simp add: hamming_decode_blocks hamming_encode_nibble dec_blocks_block nibble_round_trip)
qed

lemma round_trip_latin1:
  assumes "list_all (\<lambda>c. c < 256) msg"
  shows "bits_to_text (hamming_decode (hamming_encode (text_to_bits msg))) = Inr msg"
proof -
  have "length (text_to_bits msg) mod 4 = 0"
    using text_to_bits_latin1(1) [OF assms] by simp
  with text_to_bits_latin1(2) [OF assms]
  have "hamming_decode (hamming_encode (text_to_bits msg)) = text_to_bits msg"
    by (simp add: hamming_round_trip)
  then show ?thesis by (simp add: bits_to_text_text_to_bits [OF assms])
qed

lemma text_to_bits_evaluated: "text_to_bits [256] = [1, 0, 0, 0, 0, 0, 0, 0, 0]"
  by (simp add: text_to_bits_def format_08b_def bin_digits.simps [of 256] bin_digits.simps [of 128]
        bin_digits.simps [of 64] bin_digits.simps [of 32] bin_digits.simps [of 16] bin_digits.simps [of 8]
        bin_digits.simps [of 4] bin_digits.simps [of 2] bin_digits.simps [of "Suc 0"])

text \<open>
  C7. The claim is that \<open>text_to_bits\<close> emits 8 bits for each character of every
  text. At the one-character text of code point 256 (U+0100) the code emits the
  9 bits \<open>100000000\<close>, since \<^verbatim>\<open>'08b'\<close> pads to a width of 8 and never truncates:
  the output length is 9, not 8.
\<close>

theorem text_to_bits_wide_character:
  "text_to_bits [256] = [1, 0, 0, 0, 0, 0, 0, 0, 0] \<and>
   length (text_to_bits [256]) \<noteq> 8 * length [256 :: nat]"
  by (simp add: text_to_bits_evaluated)

text \<open>
  C1. The claim is that the chain \<open>text_to_bits\<close>, \<open>hamming_encode\<close>,
  \<open>hamming_decode\<close>, \<open>bits_to_text\<close> gives every text back. At the one-character
  text of code point 256 the 9 bits are padded to three nibbles, encoded to 21
  bits, decoded to 12 bits, cut to 8 and read as the character of code point
  128: the chain does not return the text.
\<close>

theorem round_trip_wide_character:
  "text_to_bits [256] = [1, 0, 0, 0, 0, 0, 0, 0, 0] \<and>
   hamming_encode [1, 0, 0, 0, 0, 0, 0, 0, 0] =
     [1, 1, 1, 0, 0, 0, 0, 0, 0, 0, 0, 0, 0, 0, 0, 0, 0, 0, 0, 0, 0] \<and>
   hamming_decode [1, 1, 1, 0, 0, 0, 0, 0, 0, 0, 0, 0, 0, 0, 0, 0, 0, 0, 0, 0, 0] =
     [1, 0, 0, 0, 0, 0, 0, 0, 0, 0, 0, 0] \<and>
   bits_to_text [1, 0, 0, 0, 0, 0, 0, 0, 0, 0, 0, 0] = Inr [128] \<and>
   bits_to_text (hamming_decode (hamming_encode (text_to_bits [256]))) \<noteq> Inr [256]"
proof -
  have e: "hamming_encode [1, 0, 0, 0, 0, 0, 0, 0, 0] =
      [1, 1, 1, 0, 0, 0, 0, 0, 0, 0, 0, 0, 0, 0, 0, 0, 0, 0, 0, 0, 0]"
    by (simp add: hamming_encode_nibble hamming_encode_short)
  have d: "hamming_decode [1, 1, 1, 0, 0, 0, 0, 0, 0, 0, 0, 0, 0, 0, 0, 0, 0, 0, 0, 0, 0] =
      [1, 0, 0, 0, 0, 0, 0, 0, 0, 0, 0, 0]"
    by (simp add: hamming_decode_blocks dec_blocks_block dec_blocks_short data_of_def
          fix_block_def error_pos_def)
  have c: "chunks8 [1, 0, 0, 0, 0, 0, 0, 0] = [[1, 0, 0, 0, 0, 0, 0, 0]]"
    using chunks8_byte [of "[1, 0, 0, 0, 0, 0, 0, 0]" "[]"] by (simp add: chunks8_Nil)
  have b: "byte_char [1, 0, 0, 0, 0, 0, 0, 0] = Inr 128"
    by (simp add: byte_char_def str_int_bit int_base2_def is_bin_digit_def bin_str_value_def py_chr_def)
  have t: "bits_to_text [1, 0, 0, 0, 0, 0, 0, 0, 0, 0, 0, 0] = Inr [128]"
    by (simp add: bits_to_text_def c b)
  show ?thesis by (simp add: text_to_bits_evaluated e d t)
qed

end
